theory Spec2Isabelle
  imports Main "HOL-Library.Word" "HOL-Library.AList"
begin

unbundle bit_operations_syntax

section \<open>Common conventions\<close>

text \<open>
  A Go \<^verbatim>\<open>[]byte\<close> is a list of 8-bit words, a Go \<^verbatim>\<open>string\<close> a \<^typ>\<open>string\<close>
  whose characters are its bytes. A Go \<^verbatim>\<open>map\<close> is an association list with
  pairwise distinct keys: \<^const>\<open>map_of\<close> reads it, \<^const>\<open>AList.update\<close> is the
  assignment \<^verbatim>\<open>m[k] = v\<close>, \<^const>\<open>AList.delete\<close> is \<^verbatim>\<open>delete(m, k)\<close>, and the order of
  the list is the order in which one \<^verbatim>\<open>range\<close> loop visits the entries. Go leaves that
  order unspecified; the theorems below hold for every list, hence for every order.

  A \<^verbatim>\<open>time.Time\<close> is an integer count of nanoseconds, \<^verbatim>\<open>t.Before(u)\<close> is \<open>t < u\<close>,
  \<^verbatim>\<open>t.After(u)\<close> is \<open>u < t\<close> and \<^verbatim>\<open>t.Add(d)\<close> is \<open>t + d\<close>. Every call of
  \<^verbatim>\<open>time.Now()\<close> is an argument \<open>now\<close> of the function that makes it.
\<close>

type_synonym byte = "8 word"

definition bytes_of :: "string \<Rightarrow> byte list" where
  "bytes_of s = map of_char s"

section \<open>The deduplication cache (package reflector, type dedupCache)\<close>

definition dedupWindow :: int where
  "dedupWindow = 1 * 1000000000"

definition cleanupInterval :: int where
  "cleanupInterval = 10 * 1000000000"

text \<open>
  The 64-bit FNV-1a hash of Go's \<^verbatim>\<open>hash/fnv\<close>: \<^verbatim>\<open>New64a\<close> starts from the offset
  basis, \<^verbatim>\<open>Write\<close> folds every byte in with an exclusive or followed by a
  multiplication by the FNV prime modulo \<open>2^64\<close>, \<^verbatim>\<open>Sum64\<close> returns the state.
\<close>

definition offset64 :: "64 word" where
  "offset64 = 14695981039346656037"

definition prime64 :: "64 word" where
  "prime64 = 1099511628211"

fun fnv64a_Write :: "64 word \<Rightarrow> byte list \<Rightarrow> 64 word" where
  "fnv64a_Write h [] = h"
| "fnv64a_Write h (c # cs) = fnv64a_Write ((h XOR ucast c) * prime64) cs"

record dedupCache =
  entries :: "(64 word \<times> int) list"

definition newDedupCache :: dedupCache where
  "newDedupCache = \<lparr>entries = []\<rparr>"

text \<open>The key \<^verbatim>\<open>isDuplicate\<close> computes: two \<^verbatim>\<open>Write\<close> calls on one hash state.\<close>

definition fingerprint :: "string \<Rightarrow> byte list \<Rightarrow> 64 word" where
  "fingerprint srcIface packet =
     fnv64a_Write (fnv64a_Write offset64 (bytes_of srcIface)) packet"

definition isDuplicate :: "int \<Rightarrow> string \<Rightarrow> byte list \<Rightarrow> dedupCache \<Rightarrow> bool \<times> dedupCache" where
  "isDuplicate now srcIface packet c =
     (let key = fingerprint srcIface packet in
      if (case map_of (entries c) key of
            Some expireAt \<Rightarrow> now < expireAt
          | None \<Rightarrow> False)
      then (True, c)
      else (False, c\<lparr>entries := AList.update key (now + dedupWindow) (entries c)\<rparr>))"

text \<open>
  \<^verbatim>\<open>cleanup\<close> ranges over the entries and deletes, from the map it ranges over, every
  key whose expiry lies before \<open>now\<close>. The second argument of the loop is what is left
  to visit, the third the map as deleted from so far.
\<close>

fun cleanup_loop :: "int \<Rightarrow> (64 word \<times> int) list \<Rightarrow> (64 word \<times> int) list \<Rightarrow> (64 word \<times> int) list" where
  "cleanup_loop now [] es = es"
| "cleanup_loop now ((key, expireAt) # rest) es =
     cleanup_loop now rest (if expireAt < now then AList.delete key es else es)"

definition cleanup :: "int \<Rightarrow> dedupCache \<Rightarrow> dedupCache" where
  "cleanup now c = c\<lparr>entries := cleanup_loop now (entries c) (entries c)\<rparr>"

text \<open>
  \<^verbatim>\<open>runCleanup\<close> waits for the context or the ticker, whichever comes first. The list
  is the sequence of those events; a tick carries the time \<^verbatim>\<open>cleanup\<close> reads. When the
  list is used up the loop is still waiting.
\<close>

datatype cleanup_event = CtxDone | Tick int

fun runCleanup :: "cleanup_event list \<Rightarrow> dedupCache \<Rightarrow> dedupCache" where
  "runCleanup [] c = c"
| "runCleanup (CtxDone # evs) c = c"
| "runCleanup (Tick now # evs) c = runCleanup evs (cleanup now c)"

section \<open>The reflector (reflector.go)\<close>

subsection \<open>What the code uses of the operating system\<close>

text \<open>
  A \<^verbatim>\<open>net.Interface\<close> with the two fields the code reads; \<^verbatim>\<open>net.Flags\<close> is a
  \<^verbatim>\<open>uint\<close>, 64 bits on the released platforms, and the flag constants are those of
  Go's \<^verbatim>\<open>net\<close> package (\<^verbatim>\<open>1 << iota\<close>). \<^verbatim>\<open>net.InterfaceByName\<close> rejects the empty
  name and otherwise returns the first interface of the system's table with that name.
\<close>

record Interface =
  Name :: string
  Flags :: "64 word"

definition FlagUp :: "64 word" where
  "FlagUp = push_bit 0 1"

definition FlagMulticast :: "64 word" where
  "FlagMulticast = push_bit 4 1"

definition InterfaceByName :: "Interface list \<Rightarrow> string \<Rightarrow> Interface option" where
  "InterfaceByName sys name = (if name = [] then None else find (\<lambda>ifi. Name ifi = name) sys)"

text \<open>
  The sockets of the process are a table of flags, \<open>True\<close> for an open socket; a
  \<^verbatim>\<open>*net.UDPConn\<close> is the index of its socket. Opening appends an open socket, so the
  handle is fresh; \<^verbatim>\<open>Close\<close> clears the flag.
\<close>

type_synonym sockets = "bool list"

definition open_socket :: "sockets \<Rightarrow> nat \<times> sockets" where
  "open_socket socks = (length socks, socks @ [True])"

definition Close :: "nat \<Rightarrow> sockets \<Rightarrow> sockets" where
  "Close conn socks = socks[conn := False]"

record UDPAddr =
  IP :: "byte list"
  Port :: nat

subsection \<open>Constants and the reflector's state\<close>

definition mdnsIPv4Addr :: "byte list" where
  "mdnsIPv4Addr = [224, 0, 0, 251]"

definition mdnsPort :: nat where
  "mdnsPort = 5353"

definition maxPacketLen :: nat where
  "maxPacketLen = 9000"

definition shutdownTimeout :: int where
  "shutdownTimeout = 5 * 1000000000"

datatype error =
    NotFound string
  | IsDown string
  | NoMulticast string
  | TooFew nat
  | ListenError
  | SetReadBufferError
  | JoinFailed string error

text \<open>The errors \<^verbatim>\<open>NewReflector\<close> reports are the configuration errors.\<close>

fun is_configuration_error :: "error \<Rightarrow> bool" where
  "is_configuration_error (NotFound name) = True"
| "is_configuration_error (IsDown name) = True"
| "is_configuration_error (NoMulticast name) = True"
| "is_configuration_error (TooFew n) = True"
| "is_configuration_error e = False"

datatype task = CleanupTask | ReceiveTask string

text \<open>
  The context is the flag \<open>ctx_done\<close>: \<^verbatim>\<open>cancel()\<close> sets it, a \<^verbatim>\<open>select\<close> on
  \<^verbatim>\<open>ctx.Done()\<close> with a \<^verbatim>\<open>default\<close> branch reads it. The two wait groups are the lists
  of the goroutines started on them: \<open>wg\<close> the cleanup cycle and the receive loops,
  \<open>shutdownWg\<close> the reflections, each with the arguments of its \<^verbatim>\<open>reflect\<close> call.
  The locks are not modelled: every operation below runs as one step.
\<close>

record Reflector =
  interfaces :: "Interface list"
  conns :: "(string \<times> nat) list"
  dedup :: dedupCache
  debug :: bool
  ctx_done :: bool
  wg :: "task list"
  shutdownWg :: "(string \<times> byte list) list"

subsection \<open>\<^verbatim>\<open>NewReflector\<close>\<close>

text \<open>
  The loop over \<^verbatim>\<open>ifaceNames\<close>; the third argument is \<^verbatim>\<open>r.interfaces\<close> as appended to
  so far. The function makes no socket call, so the socket table it is given is
  returned as it is.
\<close>

fun resolve_loop :: "Interface list \<Rightarrow> string list \<Rightarrow> Interface list \<Rightarrow> error + Interface list" where
  "resolve_loop sys [] ifs = Inr ifs"
| "resolve_loop sys (name # names) ifs =
     (case InterfaceByName sys name of
        None \<Rightarrow> Inl (NotFound name)
      | Some iface \<Rightarrow>
          if (Flags iface AND FlagUp) = 0 then Inl (IsDown name)
          else if (Flags iface AND FlagMulticast) = 0 then Inl (NoMulticast name)
          else resolve_loop sys names (ifs @ [iface]))"

definition NewReflector ::
  "Interface list \<Rightarrow> sockets \<Rightarrow> string list \<Rightarrow> bool \<Rightarrow> (error + Reflector) \<times> sockets" where
  "NewReflector sys socks ifaceNames dbg =
     (case resolve_loop sys ifaceNames [] of
        Inl e \<Rightarrow> (Inl e, socks)
      | Inr ifs \<Rightarrow>
          if length ifs < 2 then (Inl (TooFew (length ifs)), socks)
          else (Inr \<lparr>interfaces = ifs, conns = [], dedup = newDedupCache, debug = dbg,
                     ctx_done = False, wg = [], shutdownWg = []\<rparr>, socks))"

subsection \<open>\<^verbatim>\<open>joinMulticast\<close>, \<^verbatim>\<open>Stop\<close> and \<^verbatim>\<open>Start\<close>\<close>

text \<open>
  Whether \<^verbatim>\<open>net.ListenMulticastUDP\<close> and \<^verbatim>\<open>SetReadBuffer\<close> succeed is the operating
  system's answer, given to the model as a \<open>join_outcome\<close>.
\<close>

datatype join_outcome = ListenFails | SetReadBufferFails | JoinSucceeds

definition joinMulticast :: "Interface \<Rightarrow> join_outcome \<Rightarrow> sockets \<Rightarrow> (error + nat) \<times> sockets" where
  "joinMulticast iface out socks =
     (case out of
        ListenFails \<Rightarrow> (Inl ListenError, socks)
      | SetReadBufferFails \<Rightarrow>
          (let (conn, socks1) = open_socket socks in (Inl SetReadBufferError, Close conn socks1))
      | JoinSucceeds \<Rightarrow>
          (let (conn, socks1) = open_socket socks in (Inr conn, socks1)))"

text \<open>
  \<^verbatim>\<open>Stop\<close> cancels the context, closes every connection of the map and replaces the
  map by an empty one. Its two bounded waits change nothing of the state and are left
  out, as is the test \<^verbatim>\<open>conn != nil\<close>: \<^verbatim>\<open>Start\<close> stores no nil connection.
\<close>

fun close_all :: "(string \<times> nat) list \<Rightarrow> sockets \<Rightarrow> sockets" where
  "close_all [] socks = socks"
| "close_all ((name, conn) # rest) socks = close_all rest (Close conn socks)"

definition Stop :: "Reflector \<Rightarrow> sockets \<Rightarrow> Reflector \<times> sockets" where
  "Stop r socks = (r\<lparr>ctx_done := True, conns := []\<rparr>, close_all (conns r) socks)"

text \<open>
  The first loop of \<^verbatim>\<open>Start\<close>. The outcome of the \<open>i\<close>-th join of the attempt is
  \<open>env i\<close>. On the first failure \<^verbatim>\<open>Stop\<close> runs and the error is returned.
\<close>

fun join_loop ::
  "(nat \<Rightarrow> join_outcome) \<Rightarrow> nat \<Rightarrow> Interface list \<Rightarrow> Reflector \<Rightarrow> sockets \<Rightarrow>
   error option \<times> Reflector \<times> sockets" where
  "join_loop env i [] r socks = (None, r, socks)"
| "join_loop env i (iface # rest) r socks =
     (case joinMulticast iface (env i) socks of
        (Inl err, socks1) \<Rightarrow>
          (let (r2, socks2) = Stop r socks1 in (Some (JoinFailed (Name iface) err), r2, socks2))
      | (Inr conn, socks1) \<Rightarrow>
          join_loop env (Suc i) rest
            (r\<lparr>conns := AList.update (Name iface) conn (conns r)\<rparr>) socks1)"

definition Start ::
  "(nat \<Rightarrow> join_outcome) \<Rightarrow> Reflector \<Rightarrow> sockets \<Rightarrow> error option \<times> Reflector \<times> sockets" where
  "Start env r socks =
     (case join_loop env 0 (interfaces r) r socks of
        (Some e, r1, socks1) \<Rightarrow> (Some e, r1, socks1)
      | (None, r1, socks1) \<Rightarrow>
          (None,
           r1\<lparr>wg := wg r1 @ [CleanupTask] @ map (\<lambda>iface. ReceiveTask (Name iface)) (interfaces r1)\<rparr>,
           socks1))"

subsection \<open>\<^verbatim>\<open>reflect\<close>\<close>

text \<open>
  A call of \<^verbatim>\<open>WriteToUDP\<close> is recorded with the key of the map entry, the connection,
  the payload and the destination. Its result is the environment's: the write succeeds,
  fails while the context is still live, or fails with the context found done when the
  error is examined. The log lines of \<^verbatim>\<open>reflect\<close> are kept, without their wording.
\<close>

record udp_write =
  w_iface :: string
  w_conn :: nat
  w_packet :: "byte list"
  w_addr :: UDPAddr

datatype write_outcome = WriteOk | WriteErr | WriteErrDone

datatype log_line = ErrorReflecting string | Reflected nat string string

definition dstAddr :: UDPAddr where
  "dstAddr = \<lparr>IP = mdnsIPv4Addr, Port = mdnsPort\<rparr>"

definition mk_write :: "byte list \<Rightarrow> string \<times> nat \<Rightarrow> udp_write" where
  "mk_write packet = (\<lambda>(ifaceName, conn).
     \<lparr>w_iface = ifaceName, w_conn = conn, w_packet = packet, w_addr = dstAddr\<rparr>)"

fun reflect_loop ::
  "(string \<Rightarrow> write_outcome) \<Rightarrow> bool \<Rightarrow> string \<Rightarrow> byte list \<Rightarrow> (string \<times> nat) list \<Rightarrow>
   udp_write list \<times> log_line list" where
  "reflect_loop env dbg srcIface packet [] = ([], [])"
| "reflect_loop env dbg srcIface packet ((ifaceName, conn) # rest) =
     (if ifaceName = srcIface then reflect_loop env dbg srcIface packet rest
      else
        (case env ifaceName of
           WriteErrDone \<Rightarrow> ([mk_write packet (ifaceName, conn)], [])
         | WriteErr \<Rightarrow>
             (let (ws, ls) = reflect_loop env dbg srcIface packet rest
              in (mk_write packet (ifaceName, conn) # ws, ErrorReflecting ifaceName # ls))
         | WriteOk \<Rightarrow>
             (let (ws, ls) = reflect_loop env dbg srcIface packet rest
              in (mk_write packet (ifaceName, conn) # ws,
                  (if dbg then [Reflected (length packet) srcIface ifaceName] else []) @ ls))))"

definition reflect ::
  "(string \<Rightarrow> write_outcome) \<Rightarrow> Reflector \<Rightarrow> string \<Rightarrow> byte list \<Rightarrow>
   udp_write list \<times> log_line list" where
  "reflect env r srcIface packet =
     (if ctx_done r then ([], [])
      else reflect_loop env (debug r) srcIface packet (conns r))"

subsection \<open>\<^verbatim>\<open>receiveLoop\<close>\<close>

text \<open>
  One element of the list is one turn of the loop as the environment decides it:
  whether \<^verbatim>\<open>cancel()\<close> has been called by another goroutine before the check at the
  top, what \<^verbatim>\<open>ReadFromUDP\<close> returns, whether \<^verbatim>\<open>cancel()\<close> is called while the read
  blocks, whether it is called after the check that follows the read and before the
  reflection is handed to \<^verbatim>\<open>shutdownWg.Go\<close>, and the time \<^verbatim>\<open>isDuplicate\<close> reads.
  Nothing in the code orders the \<^verbatim>\<open>cancel()\<close> of \<^verbatim>\<open>Stop\<close> against the lines between
  that check and \<^verbatim>\<open>shutdownWg.Go\<close>, so the third point is as real as the other two;
  it exists only in a turn whose read returns a datagram that is not empty and passes
  the check, and the flag is not read in any other turn.
  A datagram longer than the buffer is cut to \<^const>\<open>maxPacketLen\<close> bytes. When the list
  is used up the loop is still running, blocked in its next read. The log lines of the
  loop are left out.
\<close>

datatype read_result = ReadTimeout | ReadClosed | ReadError | ReadOk "byte list"

record turn =
  cancel_before :: bool
  read_result :: read_result
  cancel_in_read :: bool
  cancel_after_check :: bool
  read_time :: int

datatype loop_status = Running | Returned

fun receive_turns :: "string \<Rightarrow> turn list \<Rightarrow> Reflector \<Rightarrow> loop_status \<times> Reflector" where
  "receive_turns name [] r = (Running, r)"
| "receive_turns name (t # ts) r =
     (let r1 = r\<lparr>ctx_done := ctx_done r \<or> cancel_before t\<rparr> in
      if ctx_done r1 then (Returned, r1)
      else
        (let r2 = r1\<lparr>ctx_done := ctx_done r1 \<or> cancel_in_read t\<rparr> in
         case read_result t of
           ReadTimeout \<Rightarrow> receive_turns name ts r2
         | ReadClosed \<Rightarrow> (Returned, r2)
         | ReadError \<Rightarrow> (Returned, r2)
         | ReadOk data \<Rightarrow>
             (let packet = take maxPacketLen data in
              if length packet = 0 then receive_turns name ts r2
              else if ctx_done r2 then (Returned, r2)
              else
                (let r3 = r2\<lparr>ctx_done := ctx_done r2 \<or> cancel_after_check t\<rparr> in
                 case isDuplicate (read_time t) name packet (dedup r3) of
                   (True, c) \<Rightarrow> receive_turns name ts (r3\<lparr>dedup := c\<rparr>)
                 | (False, c) \<Rightarrow>
                     receive_turns name ts
                       (r3\<lparr>dedup := c, shutdownWg := shutdownWg r3 @ [(name, packet)]\<rparr>)))))"


subsection \<open>Notions the statements use\<close>

text \<open>
  A name is usable when it resolves to an interface that is up and supports multicast:
  the three tests \<^verbatim>\<open>NewReflector\<close> makes on every name.
\<close>

definition usable :: "Interface list \<Rightarrow> string \<Rightarrow> bool" where
  "usable sys name =
     (case InterfaceByName sys name of
        None \<Rightarrow> False
      | Some iface \<Rightarrow> (Flags iface AND FlagUp) \<noteq> 0 \<and> (Flags iface AND FlagMulticast) \<noteq> 0)"

subsection \<open>An example system\<close>

text \<open>
  Four interfaces as \<^verbatim>\<open>net.Interfaces\<close> may report them: three that are up,
  broadcast, multicast and running (flags \<open>1 + 2 + 16 + 32\<close>), and a tunnel that is
  up only. \<open>joined3\<close> is the reflector after a successful \<^verbatim>\<open>Start\<close> on the first
  three, with the sockets 0, 1 and 2.
\<close>

definition eth0 :: Interface where
  "eth0 = \<lparr>Name = ''eth0'', Flags = 51\<rparr>"

definition eth1 :: Interface where
  "eth1 = \<lparr>Name = ''eth1'', Flags = 51\<rparr>"

definition wlan0 :: Interface where
  "wlan0 = \<lparr>Name = ''wlan0'', Flags = 51\<rparr>"

definition tun0 :: Interface where
  "tun0 = \<lparr>Name = ''tun0'', Flags = 1\<rparr>"

definition example_sys :: "Interface list" where
  "example_sys = [eth0, eth1, wlan0, tun0]"

definition joined3 :: Reflector where
  "joined3 =
     \<lparr>interfaces = [eth0, eth1, wlan0],
      conns = [(''eth0'', 0), (''eth1'', 1), (''wlan0'', 2)],
      dedup = newDedupCache, debug = False, ctx_done = False,
      wg = [CleanupTask, ReceiveTask ''eth0'', ReceiveTask ''eth1'', ReceiveTask ''wlan0''],
      shutdownWg = []\<rparr>"

text \<open>
  Environments for the examples: the write on \<open>eth1\<close> fails, with the context live
  or found done; a datagram arrives, with \<^verbatim>\<open>cancel()\<close> not called, called during the
  read, or called after the check that follows the read; the third join of an attempt
  fails.
\<close>

definition eth1_fails :: "string \<Rightarrow> write_outcome" where
  "eth1_fails n = (if n = ''eth1'' then WriteErr else WriteOk)"

definition eth1_fails_done :: "string \<Rightarrow> write_outcome" where
  "eth1_fails_done n = (if n = ''eth1'' then WriteErrDone else WriteOk)"




definition third_join_fails :: "nat \<Rightarrow> join_outcome" where
  "third_join_fails i = (if i < 2 then JoinSucceeds else ListenFails)"

section \<open>Properties of the FNV-1a hash\<close>

lemma fnv64a_Write_append:
  "fnv64a_Write h (xs @ ys) = fnv64a_Write (fnv64a_Write h xs) ys"
  by (induction xs arbitrary: h) simp_all

lemma prime64_inverse: "prime64 * 14886173955864302971 = 1"
  by (simp add: prime64_def)

lemma mult_prime64_inject: "a * prime64 = b * prime64 \<Longrightarrow> a = b"
proof -
  assume "a * prime64 = b * prime64"
  then have "a * (prime64 * 14886173955864302971) = b * (prime64 * 14886173955864302971)"
    by (simp only: mult.assoc [symmetric])
  then show "a = b" by (simp only: prime64_inverse mult_1_right)
qed

lemma fnv64a_Write_inject: "fnv64a_Write h cs = fnv64a_Write h' cs \<Longrightarrow> h = h'"
proof (induction cs arbitrary: h h')
  case Nil
  then show ?case by simp
next
  case (Cons c cs)
  from Cons.prems have "fnv64a_Write ((h XOR ucast c) * prime64) cs = fnv64a_Write ((h' XOR ucast c) * prime64) cs"
    by simp
  then have "(h XOR ucast c) * prime64 = (h' XOR ucast c) * prime64"
    by (rule Cons.IH)
  then have "h XOR ucast c = h' XOR ucast c"
    by (rule mult_prime64_inject)
  then have "(h XOR ucast c) XOR ucast c = (h' XOR ucast c) XOR ucast c"
    by (rule arg_cong)
  then show ?case by (simp add: xor.assoc)
qed

lemma fingerprint_distinct:
  assumes "fnv64a_Write offset64 (bytes_of I1) \<noteq> fnv64a_Write offset64 (bytes_of I2)"
  shows "fingerprint I1 P \<noteq> fingerprint I2 P"
  using assms fnv64a_Write_inject unfolding fingerprint_def by blast

text \<open>Two interface names with the same hash, found by search.\<close>

lemma fnv64a_name_d2o3: "fnv64a_Write offset64 (bytes_of ''d2o3fzxcd2wbf'') = 210977749366742683"
  by (simp add: bytes_of_def offset64_def prime64_def)

lemma fnv64a_name_xfkz: "fnv64a_Write offset64 (bytes_of ''xfkz33tixa2wb'') = 210977749366742683"
  by (simp add: bytes_of_def offset64_def prime64_def)

section \<open>Properties of the deduplication cache\<close>



lemma isDuplicate_other_key:
  "k \<noteq> fingerprint I P \<Longrightarrow>
   map_of (entries (snd (isDuplicate now I P c))) k = map_of (entries c) k"
  by (simp add: isDuplicate_def Let_def update_conv')

lemma isDuplicate_same_fingerprint:
  assumes "fingerprint I' P' = fingerprint I P"
    and "\<not> fst (isDuplicate t1 I P c)"
    and "t2 < t1 + dedupWindow"
  shows "fst (isDuplicate t2 I' P' (snd (isDuplicate t1 I P c)))"
  using assms by (simp add: isDuplicate_def Let_def update_conv' split: if_splits)

lemma cleanup_loop_map_of:
  "map_of (cleanup_loop now xs es) k =
     (if \<exists>e. (k, e) \<in> set xs \<and> e < now then None else map_of es k)"
proof (induction xs arbitrary: es)
  case Nil
  then show ?case by simp
next
  case (Cons x xs)
  obtain key expireAt where x: "x = (key, expireAt)" by (cases x)
  show ?case
    unfolding x by (auto simp: Cons.IH delete_conv')
qed

lemma cleanup_loop_distinct:
  "distinct (map fst es) \<Longrightarrow> distinct (map fst (cleanup_loop now xs es))"
  by (induction xs arbitrary: es) (auto simp: distinct_delete)




text \<open>
  C7. One run of \<^verbatim>\<open>cleanup\<close> at time \<open>now\<close>, on any cache: every entry whose expiry
  has passed (\<open>expireAt < now\<close>, the test \<^verbatim>\<open>now.After(expireAt)\<close>) is absent afterwards,
  every other entry is present with the expiry it had, and no key appears that was
  not there. No lookup of any fingerprint is involved.
\<close>

theorem cleanup_sweeps_expired:
  assumes "distinct (map fst (entries c))"
  shows "(\<forall>key expireAt. map_of (entries c) key = Some expireAt \<longrightarrow>
            map_of (entries (cleanup now c)) key = (if expireAt < now then None else Some expireAt))
       \<and> (\<forall>key. map_of (entries c) key = None \<longrightarrow> map_of (entries (cleanup now c)) key = None)
       \<and> distinct (map fst (entries (cleanup now c)))"
proof -
  have "map_of (entries (cleanup now c)) key = (if expireAt < now then None else Some expireAt)"
    if "map_of (entries c) key = Some expireAt" for key expireAt
  proof -
    have "(key, e) \<in> set (entries c) \<longleftrightarrow> e = expireAt" for e
      using assms that by (metis map_of_eq_Some_iff option.inject)
    then show ?thesis
      using that by (simp add: cleanup_def cleanup_loop_map_of)
  qed
  moreover have "map_of (entries (cleanup now c)) key = None"
    if "map_of (entries c) key = None" for key
    using that by (simp add: cleanup_def cleanup_loop_map_of)
  moreover have "distinct (map fst (entries (cleanup now c)))"
    using assms by (simp add: cleanup_def cleanup_loop_distinct)
  ultimately show ?thesis by blast
qed

theorem cleanup_sweeps_expired_witness:
  "map_of (entries (cleanup 10 \<lparr>entries = [(1, 9), (2, 10), (3, 11)]\<rparr>)) 1 = None
   \<and> map_of (entries (cleanup 10 \<lparr>entries = [(1, 9), (2, 10), (3, 11)]\<rparr>)) 2 = Some 10
   \<and> map_of (entries (cleanup 10 \<lparr>entries = [(1, 9), (2, 10), (3, 11)]\<rparr>)) 3 = Some 11
   \<and> map_of (entries (cleanup 10 \<lparr>entries = [(1, 9), (2, 10), (3, 11)]\<rparr>)) 4 = None"
  using cleanup_sweeps_expired [of "\<lparr>entries = [(1, 9), (2, 10), (3, 11)]\<rparr>" 10]
  by simp

text \<open>
  C8, as amended. When the FNV-1a hashes of two interface names differ, a call of
  \<^verbatim>\<open>isDuplicate\<close> for the first name and a payload does not change what a later call
  for the second name and the same payload returns, whatever the cache and the times.
\<close>

theorem isDuplicate_independent:
  assumes "fnv64a_Write offset64 (bytes_of I1) \<noteq> fnv64a_Write offset64 (bytes_of I2)"
  shows "fst (isDuplicate t2 I2 P (snd (isDuplicate t1 I1 P c))) = fst (isDuplicate t2 I2 P c)"
proof -
  have "fingerprint I2 P \<noteq> fingerprint I1 P"
    using fingerprint_distinct [OF assms, of P] by (rule not_sym)
  then have "map_of (entries (snd (isDuplicate t1 I1 P c))) (fingerprint I2 P) =
      map_of (entries c) (fingerprint I2 P)"
    by (rule isDuplicate_other_key)
  then show ?thesis
    by (simp add: isDuplicate_def [of t2] Let_def)
qed

theorem isDuplicate_independent_witness:
  "fnv64a_Write offset64 (bytes_of ''eth0'') \<noteq> fnv64a_Write offset64 (bytes_of ''eth1'')
   \<and> fst (isDuplicate 5 ''eth1'' [1] (snd (isDuplicate 0 ''eth0'' [1] newDedupCache))) = False"
proof -
  have h: "fnv64a_Write offset64 (bytes_of ''eth0'') \<noteq> fnv64a_Write offset64 (bytes_of ''eth1'')"
    by (simp add: bytes_of_def offset64_def prime64_def)
  have "fst (isDuplicate 5 ''eth1'' [1] newDedupCache) = False"
    by (simp add: isDuplicate_def newDedupCache_def)
  with isDuplicate_independent [OF h, of 5 "[1]" 0 newDedupCache] h show ?thesis
    by simp
qed

text \<open>
  C8 as stated fails: the two distinct names below have the same hash, so a payload
  seen on the first is reported as a duplicate on the second, where it would not be
  without the first call.
\<close>

theorem isDuplicate_independent_counterexample:
  "''d2o3fzxcd2wbf'' \<noteq> ''xfkz33tixa2wb''
   \<and> fst (isDuplicate 0 ''xfkz33tixa2wb'' [1] newDedupCache) = False
   \<and> fst (isDuplicate 0 ''xfkz33tixa2wb'' [1] (snd (isDuplicate 0 ''d2o3fzxcd2wbf'' [1] newDedupCache))) = True"
proof -
  have "fingerprint ''xfkz33tixa2wb'' [1] = fingerprint ''d2o3fzxcd2wbf'' [1]"
    by (simp add: fingerprint_def fnv64a_name_d2o3 fnv64a_name_xfkz)
  then show ?thesis
    by (simp add: isDuplicate_def newDedupCache_def dedupWindow_def)
qed

text \<open>
  C10. The fingerprint is the FNV-1a hash of the bytes of the interface name followed
  directly by the payload. Interface \<open>ab\<close> with payload \<open>c\<close> and interface \<open>a\<close> with
  payload \<open>bc\<close> are different pairs with the same bytes and the same fingerprint: once
  a call for one of them has returned false, and so recorded it, a call for the other
  before the expiry returns true.
\<close>

theorem fingerprint_no_separator:
  "fingerprint I P = fnv64a_Write offset64 (bytes_of I @ P)
   \<and> (''ab'', bytes_of ''c'') \<noteq> (''a'', bytes_of ''bc'')
   \<and> bytes_of ''ab'' @ bytes_of ''c'' = bytes_of ''a'' @ bytes_of ''bc''
   \<and> fingerprint ''ab'' (bytes_of ''c'') = fingerprint ''a'' (bytes_of ''bc'')
   \<and> (\<not> fst (isDuplicate t1 ''ab'' (bytes_of ''c'') c) \<and> t2 < t1 + dedupWindow \<longrightarrow>
        fst (isDuplicate t2 ''a'' (bytes_of ''bc'') (snd (isDuplicate t1 ''ab'' (bytes_of ''c'') c))))
   \<and> (\<not> fst (isDuplicate t1 ''a'' (bytes_of ''bc'') c) \<and> t2 < t1 + dedupWindow \<longrightarrow>
        fst (isDuplicate t2 ''ab'' (bytes_of ''c'') (snd (isDuplicate t1 ''a'' (bytes_of ''bc'') c))))"
proof -
  have cat: "fingerprint I P = fnv64a_Write offset64 (bytes_of I @ P)" for I P
    by (simp add: fingerprint_def fnv64a_Write_append)
  have same: "fingerprint ''ab'' (bytes_of ''c'') = fingerprint ''a'' (bytes_of ''bc'')"
    by (simp add: cat bytes_of_def)
  show ?thesis
    using isDuplicate_same_fingerprint [OF same, of t1 c t2]
      isDuplicate_same_fingerprint [OF same [symmetric], of t1 c t2]
    by (simp add: cat same) (simp add: bytes_of_def)
qed

theorem fingerprint_no_separator_witness:
  "\<not> fst (isDuplicate 0 ''ab'' (bytes_of ''c'') newDedupCache)
   \<and> fst (isDuplicate 5 ''a'' (bytes_of ''bc'') (snd (isDuplicate 0 ''ab'' (bytes_of ''c'') newDedupCache)))"
proof -
  have h: "\<not> fst (isDuplicate 0 ''ab'' (bytes_of ''c'') newDedupCache)"
    by (simp add: isDuplicate_def newDedupCache_def)
  have w: "(5::int) < 0 + dedupWindow"
    by (simp add: dedupWindow_def)
  from fingerprint_no_separator [of "''x''" "[]" 0 newDedupCache 5] h w show ?thesis
    by simp
qed

section \<open>Properties of construction\<close>

lemma InterfaceByName_Name: "InterfaceByName sys name = Some iface \<Longrightarrow> Name iface = name"
  by (auto simp: InterfaceByName_def find_Some_iff split: if_splits)

lemma resolve_loop_Inr:
  "resolve_loop sys names ifs = Inr ifs' \<Longrightarrow>
     (\<forall>n\<in>set names. usable sys n) \<and> length ifs' = length ifs + length names
     \<and> map Name ifs' = map Name ifs @ names"
proof (induction names arbitrary: ifs)
  case Nil
  then show ?case by simp
next
  case (Cons name names)
  from Cons.prems obtain iface where
    found: "InterfaceByName sys name = Some iface"
    and up: "(Flags iface AND FlagUp) \<noteq> 0"
    and mc: "(Flags iface AND FlagMulticast) \<noteq> 0"
    and rest: "resolve_loop sys names (ifs @ [iface]) = Inr ifs'"
    by (auto split: option.splits if_splits)
  from Cons.IH [OF rest] found up mc InterfaceByName_Name [OF found]
  show ?case by (simp add: usable_def)
qed

lemma resolve_loop_Inl:
  "resolve_loop sys names ifs = Inl e \<Longrightarrow>
     is_configuration_error e \<and> (\<exists>n\<in>set names. \<not> usable sys n)"
proof (induction names arbitrary: ifs)
  case Nil
  then show ?case by simp
next
  case (Cons name names)
  show ?case
  proof (cases "usable sys name")
    case True
    then obtain iface where "InterfaceByName sys name = Some iface"
      and "(Flags iface AND FlagUp) \<noteq> 0" and "(Flags iface AND FlagMulticast) \<noteq> 0"
      by (auto simp: usable_def split: option.splits)
    with Cons.prems have "resolve_loop sys names (ifs @ [iface]) = Inl e" by simp
    from Cons.IH [OF this] show ?thesis by simp
  next
    case False
    with Cons.prems show ?thesis
      by (auto simp: usable_def split: option.splits if_splits)
  qed
qed

text \<open>
  C3. \<^verbatim>\<open>NewReflector\<close> returns either a configuration error or a reflector, and in
  both cases the socket table it was given, with no socket opened. It returns the
  error exactly when some name of the list is not usable (it does not resolve, or
  resolves to an interface that is down or lacks multicast) or the list has fewer than
  two entries; otherwise it returns a reflector, with no connection and a live context.
\<close>

theorem NewReflector_validation:
  "(case NewReflector sys socks names dbg of
      (Inl e, socks') \<Rightarrow>
        is_configuration_error e \<and> socks' = socks
        \<and> ((\<exists>n\<in>set names. \<not> usable sys n) \<or> length names < 2)
    | (Inr r, socks') \<Rightarrow>
        socks' = socks \<and> conns r = [] \<and> \<not> ctx_done r
        \<and> (\<forall>n\<in>set names. usable sys n) \<and> 2 \<le> length names)"
proof (cases "resolve_loop sys names []")
  case (Inl e)
  from resolve_loop_Inl [OF Inl] show ?thesis
    by (simp add: NewReflector_def Inl)
next
  case (Inr ifs)
  from resolve_loop_Inr [OF Inr] show ?thesis
    by (simp add: NewReflector_def Inr)
qed

theorem NewReflector_validation_witness:
  "fst (NewReflector example_sys [] [''eth0'', ''eth1''] False) =
     Inr \<lparr>interfaces = [eth0, eth1], conns = [], dedup = newDedupCache, debug = False,
          ctx_done = False, wg = [], shutdownWg = []\<rparr>
   \<and> usable example_sys ''eth0'' \<and> usable example_sys ''eth1''
   \<and> fst (NewReflector example_sys [] [''eth0'', ''tun0''] False) = Inl (NoMulticast ''tun0'')
   \<and> \<not> usable example_sys ''tun0''
   \<and> fst (NewReflector example_sys [] [''eth0'', ''eth9''] False) = Inl (NotFound ''eth9'')
   \<and> fst (NewReflector example_sys [] [''eth0''] False) = Inl (TooFew 1)"
  using NewReflector_validation [where sys = example_sys and socks = "[]"
        and names = "[''eth0'', ''eth1'']" and dbg = False]
    NewReflector_validation [where sys = example_sys and socks = "[]"
        and names = "[''eth0'', ''tun0'']" and dbg = False]
  by (simp add: NewReflector_def InterfaceByName_def usable_def example_sys_def
      eth0_def eth1_def wlan0_def tun0_def FlagUp_def FlagMulticast_def)

text \<open>
  C9, as amended. \<^verbatim>\<open>NewReflector\<close> counts the entries of the list, repeated or not:
  when every name of the list is usable, construction fails exactly when the list has
  fewer than two entries, with the error that reports their number, and otherwise
  returns a reflector with one interface per entry, in the order of the list.
\<close>

theorem NewReflector_counts_entries:
  assumes "\<forall>n\<in>set names. usable sys n"
  shows "(case fst (NewReflector sys socks names dbg) of
            Inl e \<Rightarrow> length names < 2 \<and> e = TooFew (length names)
          | Inr r \<Rightarrow> 2 \<le> length names \<and> map Name (interfaces r) = names)"
proof (cases "resolve_loop sys names []")
  case (Inl e)
  from resolve_loop_Inl [OF Inl] assms show ?thesis by simp
next
  case (Inr ifs)
  from resolve_loop_Inr [OF Inr] show ?thesis
    by (simp add: NewReflector_def Inr)
qed

theorem NewReflector_counts_entries_witness:
  "usable example_sys ''eth1'' \<and> usable example_sys ''wlan0''
   \<and> fst (NewReflector example_sys [] [''eth1'', ''wlan0'', ''eth1''] False) =
       Inr \<lparr>interfaces = [eth1, wlan0, eth1], conns = [], dedup = newDedupCache, debug = False,
            ctx_done = False, wg = [], shutdownWg = []\<rparr>
   \<and> map Name [eth1, wlan0, eth1] = [''eth1'', ''wlan0'', ''eth1'']"
proof -
  have h: "\<forall>n\<in>set [''eth1'', ''wlan0'', ''eth1'']. usable example_sys n"
    by (simp add: usable_def InterfaceByName_def example_sys_def eth0_def eth1_def wlan0_def
        tun0_def FlagUp_def FlagMulticast_def)
  have e: "fst (NewReflector example_sys [] [''eth1'', ''wlan0'', ''eth1''] False) =
       Inr \<lparr>interfaces = [eth1, wlan0, eth1], conns = [], dedup = newDedupCache, debug = False,
            ctx_done = False, wg = [], shutdownWg = []\<rparr>"
    by (simp add: NewReflector_def InterfaceByName_def example_sys_def eth0_def eth1_def wlan0_def
        tun0_def FlagUp_def FlagMulticast_def)
  from NewReflector_counts_entries [OF h, of "[]" False] h e show ?thesis
    by simp
qed

text \<open>
  C9 as stated fails. It asks that a list whose usable interfaces do not include two
  distinct ones is rejected; the same usable name given twice passes the test
  \<^verbatim>\<open>len(r.interfaces) < 2\<close>, and a reflector with the interface \<open>eth0\<close> twice is
  returned, although the two entries are one interface.
\<close>

theorem NewReflector_accepts_repeated_name:
  "NewReflector example_sys [] [''eth0'', ''eth0''] False =
     (Inr \<lparr>interfaces = [eth0, eth0], conns = [], dedup = newDedupCache, debug = False,
           ctx_done = False, wg = [], shutdownWg = []\<rparr>, [])
   \<and> remdups [eth0, eth0] = [eth0]"
  by (simp add: NewReflector_def InterfaceByName_def example_sys_def eth0_def eth1_def wlan0_def
      tun0_def FlagUp_def FlagMulticast_def)

section \<open>Properties of the fan-out\<close>

lemma reflect_loop_writes:
  "w \<in> set (fst (reflect_loop env dbg src P cs)) \<Longrightarrow>
     w_iface w \<noteq> src \<and> w_packet w = P \<and> w_addr w = dstAddr
     \<and> (w_iface w, w_conn w) \<in> set cs"
proof (induction cs)
  case Nil
  then show ?case by simp
next
  case (Cons x cs)
  obtain n c where x: "x = (n, c)" by (cases x)
  from Cons show ?case
    unfolding x
    by (auto simp: mk_write_def split: if_splits write_outcome.splits prod.splits)
qed

lemma reflect_loop_attempts:
  "fst (reflect_loop env dbg src P cs) =
     map (mk_write P)
       (takeWhile (\<lambda>(n, c). env n \<noteq> WriteErrDone) (filter (\<lambda>(n, c). n \<noteq> src) cs)
        @ take 1 (dropWhile (\<lambda>(n, c). env n \<noteq> WriteErrDone) (filter (\<lambda>(n, c). n \<noteq> src) cs)))"
proof (induction cs)
  case Nil
  then show ?case by simp
next
  case (Cons x cs)
  obtain n c where x: "x = (n, c)" by (cases x)
  from Cons show ?case
    unfolding x
    by (cases "env n") (auto split: prod.splits)
qed

lemma reflect_loop_error_lines:
  "ErrorReflecting n \<in> set (snd (reflect_loop env dbg src P cs)) \<longleftrightarrow>
     env n = WriteErr \<and>
     n \<in> fst ` set (takeWhile (\<lambda>(n, c). env n \<noteq> WriteErrDone) (filter (\<lambda>(n, c). n \<noteq> src) cs))"
proof (induction cs)
  case Nil
  then show ?case by simp
next
  case (Cons x cs)
  obtain m c where x: "x = (m, c)" by (cases x)
  show ?case
  proof (cases "m = src")
    case True
    with Cons show ?thesis unfolding x by simp
  next
    case False
    show ?thesis
    proof (cases "env m")
      case WriteOk
      with False Cons show ?thesis
        unfolding x by (auto simp: case_prod_beta)
    next
      case WriteErr
      with False Cons show ?thesis
        unfolding x by (auto simp: case_prod_beta)
    next
      case WriteErrDone
      with False show ?thesis
        unfolding x by simp
    qed
  qed
qed

lemma takeWhile_all: "\<forall>x\<in>set xs. P x \<Longrightarrow> takeWhile P xs @ take 1 (dropWhile P xs) = xs"
  by (induction xs) auto

lemma inj_mk_write: "inj (mk_write P)"
  by (auto simp: inj_on_def mk_write_def)

text \<open>
  C1, as amended. In no case does \<^verbatim>\<open>reflect\<close> write under the key of the ingress
  interface \<open>A\<close>, and every write it issues carries the unmodified payload to
  224.0.0.251:5353 on a connection of the map. When the context is not done as
  \<^verbatim>\<open>reflect\<close> is entered and no failed write finds it done, \<^verbatim>\<open>reflect\<close> issues exactly
  one write on every joined socket other than that of \<open>A\<close>, and no other write.
\<close>

theorem reflect_fan_out:
  "(\<forall>w\<in>set (fst (reflect env r A P)).
      w_iface w \<noteq> A \<and> w_packet w = P \<and> w_addr w = dstAddr \<and> (w_iface w, w_conn w) \<in> set (conns r))
   \<and> (distinct (map fst (conns r)) \<and> \<not> ctx_done r \<and> (\<forall>n\<in>fst ` set (conns r). env n \<noteq> WriteErrDone) \<longrightarrow>
        set (fst (reflect env r A P)) =
          {mk_write P (n, c) | n c. map_of (conns r) n = Some c \<and> n \<noteq> A}
        \<and> distinct (fst (reflect env r A P)))"
proof -
  have never: "w_iface w \<noteq> A \<and> w_packet w = P \<and> w_addr w = dstAddr
      \<and> (w_iface w, w_conn w) \<in> set (conns r)"
    if "w \<in> set (fst (reflect env r A P))" for w
  proof -
    from that have "w \<in> set (fst (reflect_loop env (debug r) A P (conns r)))"
      by (simp add: reflect_def split: if_splits)
    then show ?thesis by (rule reflect_loop_writes)
  qed
  have every: "set (fst (reflect env r A P)) =
        {mk_write P (n, c) | n c. map_of (conns r) n = Some c \<and> n \<noteq> A}
      \<and> distinct (fst (reflect env r A P))"
    if h: "distinct (map fst (conns r)) \<and> \<not> ctx_done r
      \<and> (\<forall>n\<in>fst ` set (conns r). env n \<noteq> WriteErrDone)"
  proof -
    let ?others = "filter (\<lambda>(n, c). n \<noteq> A) (conns r)"
    have live: "\<forall>x\<in>set ?others. (\<lambda>(n, c). env n \<noteq> WriteErrDone) x"
      using h by force
    have "fst (reflect env r A P) = fst (reflect_loop env (debug r) A P (conns r))"
      using h by (simp add: reflect_def)
    also have "\<dots> = map (mk_write P) ?others"
      by (simp only: reflect_loop_attempts takeWhile_all [OF live])
    finally have eq: "fst (reflect env r A P) = map (mk_write P) ?others" .
    have mem: "(n, c) \<in> set (conns r) \<longleftrightarrow> map_of (conns r) n = Some c" for n c
      using h by (simp add: map_of_eq_Some_iff)
    have s: "set (fst (reflect env r A P)) =
        {mk_write P (n, c) | n c. map_of (conns r) n = Some c \<and> n \<noteq> A}"
      unfolding eq using mem by auto
    have "distinct (conns r)"
      using h by (simp add: distinct_map)
    then have "distinct (fst (reflect env r A P))"
      unfolding eq by (simp add: distinct_map inj_on_subset [OF inj_mk_write])
    with s show ?thesis by simp
  qed
  from never every show ?thesis by blast
qed

theorem reflect_fan_out_witness:
  "distinct (map fst (conns joined3)) \<and> \<not> ctx_done joined3
   \<and> fst (reflect (\<lambda>n. WriteOk) joined3 ''eth0'' [1, 2, 3]) =
       [mk_write [1, 2, 3] (''eth1'', 1), mk_write [1, 2, 3] (''wlan0'', 2)]
   \<and> set (fst (reflect (\<lambda>n. WriteOk) joined3 ''eth0'' [1, 2, 3])) =
       {mk_write [1, 2, 3] (n, c) | n c. map_of (conns joined3) n = Some c \<and> n \<noteq> ''eth0''}"
proof -
  have h: "distinct (map fst (conns joined3)) \<and> \<not> ctx_done joined3
      \<and> (\<forall>n\<in>fst ` set (conns joined3). (\<lambda>n. WriteOk) n \<noteq> WriteErrDone)"
    by (simp add: joined3_def)
  have e: "fst (reflect (\<lambda>n. WriteOk) joined3 ''eth0'' [1, 2, 3]) =
       [mk_write [1, 2, 3] (''eth1'', 1), mk_write [1, 2, 3] (''wlan0'', 2)]"
    by (simp add: reflect_def joined3_def)
  from reflect_fan_out [of "\<lambda>n. WriteOk" joined3 "''eth0''" "[1, 2, 3]"] h
  have "set (fst (reflect (\<lambda>n. WriteOk) joined3 ''eth0'' [1, 2, 3])) =
       {mk_write [1, 2, 3] (n, c) | n c. map_of (conns joined3) n = Some c \<and> n \<noteq> ''eth0''}"
    by blast
  with h e show ?thesis by blast
qed

text \<open>
  C1 as stated fails once the context is cancelled: in the state \<^verbatim>\<open>Stop\<close> leaves
  between \<^verbatim>\<open>cancel()\<close> and the closing of the sockets, \<open>eth1\<close> and \<open>wlan0\<close> are joined
  and a reflection of a packet from \<open>eth0\<close>, scheduled before, writes to neither.
\<close>

theorem reflect_fan_out_counterexample:
  "map_of (conns (joined3\<lparr>ctx_done := True\<rparr>)) ''eth1'' = Some 1
   \<and> map_of (conns (joined3\<lparr>ctx_done := True\<rparr>)) ''wlan0'' = Some 2
   \<and> fst (reflect (\<lambda>n. WriteOk) (joined3\<lparr>ctx_done := True\<rparr>) ''eth0'' [1, 2, 3]) = []"
  by (simp add: reflect_def joined3_def)

text \<open>
  C6. When the context is not done as \<^verbatim>\<open>reflect\<close> is entered, the destinations, in
  the order of the range loop, are attempted up to and including the first whose write
  fails with the context found done, and none after it; a write that fails with the
  context live is followed by the attempts on all remaining destinations and leaves
  one error line in the log, and the silent early return leaves none. So without
  cancellation every destination is attempted once, whichever writes fail, and the
  failed ones are exactly those logged.
\<close>

theorem reflect_write_errors:
  assumes "\<not> ctx_done r"
  shows "let others = filter (\<lambda>(n, c). n \<noteq> src) (conns r);
             live = (\<lambda>(n, c). env n \<noteq> WriteErrDone)
         in fst (reflect env r src P) =
              map (mk_write P) (takeWhile live others @ take 1 (dropWhile live others))
          \<and> (\<forall>n. ErrorReflecting n \<in> set (snd (reflect env r src P)) \<longleftrightarrow>
                 env n = WriteErr \<and> n \<in> fst ` set (takeWhile live others))
          \<and> ((\<forall>x\<in>set others. live x) \<longrightarrow>
                 fst (reflect env r src P) = map (mk_write P) others
               \<and> (\<forall>n. ErrorReflecting n \<in> set (snd (reflect env r src P)) \<longleftrightarrow>
                     env n = WriteErr \<and> n \<in> fst ` set others))"
proof -
  let ?others = "filter (\<lambda>(n, c). n \<noteq> src) (conns r)"
  let ?live = "\<lambda>(n, c). env n \<noteq> WriteErrDone"
  have r: "reflect env r src P = reflect_loop env (debug r) src P (conns r)"
    using assms by (simp add: reflect_def)
  have a: "fst (reflect env r src P) =
      map (mk_write P) (takeWhile ?live ?others @ take 1 (dropWhile ?live ?others))"
    unfolding r by (rule reflect_loop_attempts)
  have b: "ErrorReflecting n \<in> set (snd (reflect env r src P)) \<longleftrightarrow>
      env n = WriteErr \<and> n \<in> fst ` set (takeWhile ?live ?others)" for n
    unfolding r by (rule reflect_loop_error_lines)
  have c: "fst (reflect env r src P) = map (mk_write P) ?others
      \<and> (\<forall>n. ErrorReflecting n \<in> set (snd (reflect env r src P)) \<longleftrightarrow>
            env n = WriteErr \<and> n \<in> fst ` set ?others)"
    if "\<forall>x\<in>set ?others. ?live x"
  proof -
    have tw: "takeWhile ?live ?others = ?others"
      using that by (simp add: takeWhile_eq_all_conv)
    have all: "takeWhile ?live ?others @ take 1 (dropWhile ?live ?others) = ?others"
      using that by (rule takeWhile_all)
    have a': "fst (reflect env r src P) = map (mk_write P) ?others"
      using a by (simp only: all)
    have b': "ErrorReflecting n \<in> set (snd (reflect env r src P)) \<longleftrightarrow>
        env n = WriteErr \<and> n \<in> fst ` set ?others" for n
      using b [of n] by (simp only: tw)
    from a' b' show ?thesis by blast
  qed
  show ?thesis
    unfolding Let_def using a b c by blast
qed

theorem reflect_write_errors_witness:
  "\<not> ctx_done joined3
   \<and> reflect eth1_fails joined3 ''eth0'' [7] =
       ([mk_write [7] (''eth1'', 1), mk_write [7] (''wlan0'', 2)], [ErrorReflecting ''eth1''])
   \<and> reflect eth1_fails_done joined3 ''eth0'' [7] = ([mk_write [7] (''eth1'', 1)], [])"
  using reflect_write_errors [of joined3 "''eth0''" eth1_fails "[7]"]
    reflect_write_errors [of joined3 "''eth0''" eth1_fails_done "[7]"]
  by (simp add: joined3_def reflect_def eth1_fails_def eth1_fails_done_def)

section \<open>Properties of the receive loop\<close>


lemma receive_turns_done_Returned:
  "ctx_done r \<Longrightarrow> receive_turns name (t # ts) r = (Returned, r)"
  by (simp add: Let_def)








section \<open>Properties of startup and shutdown\<close>

text \<open>The example reflector is what construction and a successful start produce.\<close>

lemma joined3_is_started:
  "(case NewReflector example_sys [] [''eth0'', ''eth1'', ''wlan0''] False of
      (Inr r, socks) \<Rightarrow> Start (\<lambda>i. JoinSucceeds) r socks = (None, joined3, [True, True, True])
    | (Inl e, socks) \<Rightarrow> False)"
  by (simp add: NewReflector_def InterfaceByName_def example_sys_def eth0_def eth1_def wlan0_def
      tun0_def FlagUp_def FlagMulticast_def Start_def joinMulticast_def open_socket_def joined3_def)

lemma length_close_all: "length (close_all cs socks) = length socks"
  by (induction cs arbitrary: socks) (auto simp: Close_def)

lemma nth_close_all:
  "j < length socks \<Longrightarrow> close_all cs socks ! j = (socks ! j \<and> j \<notin> snd ` set cs)"
proof (induction cs arbitrary: socks)
  case Nil
  then show ?case by simp
next
  case (Cons x cs)
  obtain n c where x: "x = (n, c)" by (cases x)
  have "close_all (x # cs) socks ! j = (Close c socks ! j \<and> j \<notin> snd ` set cs)"
    unfolding x using Cons.prems by (simp add: Cons.IH Close_def)
  also have "Close c socks ! j = (socks ! j \<and> j \<noteq> c)"
    using Cons.prems by (cases "j = c") (simp_all add: Close_def)
  finally show ?case
    unfolding x by auto
qed

lemma update_fresh_key: "k \<notin> fst ` set al \<Longrightarrow> AList.update k v al = al @ [(k, v)]"
  by (induction al) auto

text \<open>
  The invariant of the first loop of Start while the names are distinct: the
  connections of the map are exactly the sockets opened in this attempt that are open.
\<close>

lemma join_loop_failure:
  assumes "join_loop env i ifs r socks = (Some e, r', socks')"
    and "distinct (map Name ifs)"
    and "set (map Name ifs) \<inter> fst ` set (conns r) = {}"
    and "base \<le> length socks"
    and "snd ` set (conns r) \<subseteq> {base..<length socks}"
    and "\<forall>j. base \<le> j \<and> j < length socks \<and> socks ! j \<longrightarrow> j \<in> snd ` set (conns r)"
  shows "conns r' = [] \<and> ctx_done r' \<and> wg r' = wg r \<and> length socks \<le> length socks'
       \<and> take base socks' = take base socks
       \<and> (\<forall>j. base \<le> j \<and> j < length socks' \<longrightarrow> \<not> socks' ! j)"
  using assms
proof (induction ifs arbitrary: i r socks)
  case Nil
  then show ?case by simp
next
  case (Cons iface rest)
  show ?case
  proof (cases "env i")
    case ListenFails
    with Cons.prems(1) have r': "r' = r\<lparr>ctx_done := True, conns := []\<rparr>"
      and s': "socks' = close_all (conns r) socks"
      by (simp_all add: joinMulticast_def Stop_def)
    have len: "length socks' = length socks"
      by (simp add: s' length_close_all)
    have old: "take base socks' = take base socks"
    proof (rule nth_take_lemma)
      show "base \<le> length socks'" using Cons.prems(4) len by simp
      show "base \<le> length socks" by (rule Cons.prems(4))
      show "j < base \<longrightarrow> socks' ! j = socks ! j" for j
        using Cons.prems(4,5) by (auto simp: s' nth_close_all)
    qed
    have new: "\<forall>j. base \<le> j \<and> j < length socks' \<longrightarrow> \<not> socks' ! j"
      using Cons.prems(6) by (auto simp: s' length_close_all nth_close_all)
    from r' len old new show ?thesis by simp
  next
    case SetReadBufferFails
    with Cons.prems(1) have r': "r' = r\<lparr>ctx_done := True, conns := []\<rparr>"
      and s': "socks' = close_all (conns r) (socks @ [False])"
      by (simp_all add: joinMulticast_def Stop_def open_socket_def Close_def)
    have len: "length socks' = Suc (length socks)"
      by (simp add: s' length_close_all)
    have old: "take base socks' = take base socks"
    proof (rule nth_take_lemma)
      show "base \<le> length socks'" using Cons.prems(4) len by simp
      show "base \<le> length socks" by (rule Cons.prems(4))
      show "j < base \<longrightarrow> socks' ! j = socks ! j" for j
        using Cons.prems(4,5) by (auto simp: s' nth_close_all nth_append)
    qed
    have new: "\<forall>j. base \<le> j \<and> j < length socks' \<longrightarrow> \<not> socks' ! j"
      using Cons.prems(6) by (auto simp: s' length_close_all nth_close_all nth_append)
    from r' len old new show ?thesis by simp
  next
    case JoinSucceeds
    let ?r1 = "r\<lparr>conns := AList.update (Name iface) (length socks) (conns r)\<rparr>"
    let ?s1 = "socks @ [True]"
    from JoinSucceeds Cons.prems(1)
    have step: "join_loop env (Suc i) rest ?r1 ?s1 = (Some e, r', socks')"
      by (simp add: joinMulticast_def open_socket_def)
    have fresh: "Name iface \<notin> fst ` set (conns r)"
      using Cons.prems(3) by auto
    have c1: "conns ?r1 = conns r @ [(Name iface, length socks)]"
      using fresh by (simp add: update_fresh_key)
    have p2: "distinct (map Name rest)"
      using Cons.prems(2) by simp
    have p3: "set (map Name rest) \<inter> fst ` set (conns ?r1) = {}"
      using Cons.prems(2,3) unfolding c1 by auto
    have p4: "base \<le> length ?s1"
      using Cons.prems(4) by simp
    have p5: "snd ` set (conns ?r1) \<subseteq> {base..<length ?s1}"
      using Cons.prems(4,5) unfolding c1 by auto
    have p6: "\<forall>j. base \<le> j \<and> j < length ?s1 \<and> ?s1 ! j \<longrightarrow> j \<in> snd ` set (conns ?r1)"
      using Cons.prems(6) unfolding c1 by (auto simp: nth_append less_Suc_eq)
    from Cons.IH [OF step p2 p3 p4 p5 p6]
    have ih: "conns r' = [] \<and> ctx_done r' \<and> wg r' = wg ?r1 \<and> length ?s1 \<le> length socks'
       \<and> take base socks' = take base ?s1
       \<and> (\<forall>j. base \<le> j \<and> j < length socks' \<longrightarrow> \<not> socks' ! j)" .
    then show ?thesis
      using Cons.prems(4) by simp
  qed
qed

lemma Start_releases_when_names_distinct:
  assumes "Start env r socks = (Some e, r', socks')"
    and "distinct (map Name (interfaces r))"
    and "conns r = []"
  shows "conns r' = [] \<and> ctx_done r' \<and> wg r' = wg r
       \<and> take (length socks) socks' = socks
       \<and> (\<forall>j. length socks \<le> j \<and> j < length socks' \<longrightarrow> \<not> socks' ! j)"
proof -
  from assms(1) have jl: "join_loop env 0 (interfaces r) r socks = (Some e, r', socks')"
    by (auto simp: Start_def split: prod.splits option.splits)
  from join_loop_failure [OF jl assms(2), of "length socks"] assms(3)
  show ?thesis by simp
qed

lemma join_loop_fails_iff:
  "(\<exists>e. fst (join_loop env i ifs r socks) = Some e) \<longleftrightarrow> (\<exists>k < length ifs. env (i + k) \<noteq> JoinSucceeds)"
proof (induction ifs arbitrary: i r socks)
  case Nil
  then show ?case by simp
next
  case (Cons iface rest)
  show ?case
  proof (cases "env i = JoinSucceeds")
    case True
    have "(\<exists>k<length (iface # rest). env (i + k) \<noteq> JoinSucceeds) \<longleftrightarrow>
        (\<exists>k<length rest. env (Suc i + k) \<noteq> JoinSucceeds)"
      using True by (auto simp: less_Suc_eq_0_disj)
    with True Cons.IH show ?thesis
      by (simp add: joinMulticast_def open_socket_def)
  next
    case False
    then have "\<exists>k<length (iface # rest). env (i + k) \<noteq> JoinSucceeds"
      by (intro exI [of _ 0]) simp
    with False show ?thesis
      by (cases "env i") (auto simp: joinMulticast_def open_socket_def Stop_def split: prod.splits)
  qed
qed

text \<open>
  C4. The claim asks that a failed \<^verbatim>\<open>Start\<close> releases every socket joined in the
  attempt. With pairwise distinct names it does, as the lemma above shows. With a
  name given twice, which \<^verbatim>\<open>NewReflector\<close> accepts, the second join of \<open>eth0\<close>
  replaces the first connection in the map; when the join of \<open>eth1\<close> then fails,
  \<^verbatim>\<open>Stop\<close> closes the connection left in the map and socket 0 stays open.
\<close>

theorem Start_duplicate_name_leaks_socket:
  "(case NewReflector example_sys [] [''eth0'', ''eth0'', ''eth1''] False of
      (Inr r, socks) \<Rightarrow>
        interfaces r = [eth0, eth0, eth1]
        \<and> Start third_join_fails r socks =
            (Some (JoinFailed ''eth1'' ListenError), r\<lparr>ctx_done := True\<rparr>, [True, False])
    | (Inl e, socks) \<Rightarrow> False)"
  by (simp add: NewReflector_def InterfaceByName_def example_sys_def eth0_def eth1_def wlan0_def
      tun0_def FlagUp_def FlagMulticast_def Start_def joinMulticast_def open_socket_def
      third_join_fails_def Stop_def Close_def)

text \<open>
  The same overwrite in a start that succeeds: one connection is left in the map, so
  a packet from \<open>eth0\<close> is reflected nowhere, and \<^verbatim>\<open>Stop\<close> leaves socket 0 open.
\<close>

lemma Start_repeated_name_one_socket_in_map:
  "(case NewReflector example_sys [] [''eth0'', ''eth0''] False of
      (Inr r, socks) \<Rightarrow>
        (case Start (\<lambda>i. JoinSucceeds) r socks of
           (err, r', socks') \<Rightarrow>
             err = None \<and> conns r' = [(''eth0'', 1)] \<and> socks' = [True, True]
             \<and> fst (reflect (\<lambda>n. WriteOk) r' ''eth0'' [1]) = []
             \<and> snd (Stop r' socks') = [True, False])
    | (Inl e, socks) \<Rightarrow> False)"
  by (simp add: NewReflector_def InterfaceByName_def example_sys_def eth0_def eth1_def wlan0_def
      tun0_def FlagUp_def FlagMulticast_def Start_def joinMulticast_def open_socket_def
      Stop_def Close_def reflect_def)

end
